theory Spec2Isabelle
  imports Complex_Main
begin

section \<open>Strings\<close>

text \<open>
  Python \<open>str\<close> values are modelled as \<open>string\<close>: a list of characters whose code
  points lie in the range 0..255. All characters that the source treats specially
  (white space, the letters of the error markers, digits, slashes, angle brackets) are in
  that range.
\<close>

definition newline :: char where
  "newline = CHR 0x0A"

text \<open>\<open>str.isspace\<close> on the code points below 256.\<close>

definition is_space :: "char \<Rightarrow> bool" where
  "is_space c = ((of_char c :: nat) \<in> {9, 10, 11, 12, 13, 28, 29, 30, 31, 32, 133, 160})"

text \<open>\<open>s.lstrip()\<close>, \<open>s.rstrip()\<close> and \<open>s.strip()\<close>.\<close>

definition lstrip :: "string \<Rightarrow> string" where
  "lstrip s = dropWhile is_space s"

definition rstrip :: "string \<Rightarrow> string" where
  "rstrip s = rev (dropWhile is_space (rev s))"

definition strip :: "string \<Rightarrow> string" where
  "strip s = rstrip (lstrip s)"

text \<open>\<open>s.startswith(p)\<close>.\<close>

definition startswith :: "string \<Rightarrow> string \<Rightarrow> bool" where
  "startswith s p = (take (length p) s = p)"

text \<open>\<open>"\n".join(xs)\<close>.\<close>

fun join_nl :: "string list \<Rightarrow> string" where
  "join_nl [] = []"
| "join_nl [x] = x"
| "join_nl (x # y # ys) = x @ newline # join_nl (y # ys)"

text \<open>
  Case folding as \<open>re.IGNORECASE\<close> applies it to the letters of the error markers: among
  the code points below 256 only the ASCII capital letters fold to ASCII small letters.
\<close>

definition lower_ascii :: "char \<Rightarrow> char" where
  "lower_ascii c =
     (let n = (of_char c :: nat) in if 65 \<le> n \<and> n \<le> 90 then char_of (n + 32) else c)"

text \<open>A literal found anywhere in a string, ignoring case.\<close>

fun search_literal_ci :: "string \<Rightarrow> string \<Rightarrow> bool" where
  "search_literal_ci lit [] = (lit = [])"
| "search_literal_ci lit (c # cs) =
     (startswith (map lower_ascii (c # cs)) (map lower_ascii lit) \<or> search_literal_ci lit cs)"

section \<open>The error-start pattern\<close>

text \<open>
  \<open>self.error_start_pattern = re.compile(r'(PHP (Fatal error|Warning|Notice|Parse error)|\[error\])', re.IGNORECASE)\<close>:
  an alternation of five literals; \<open>search\<close> looks for one of them anywhere in the line.
\<close>

definition error_start_literals :: "string list" where
  "error_start_literals =
     [''PHP Fatal error'', ''PHP Warning'', ''PHP Notice'', ''PHP Parse error'', ''[error]'']"

definition error_start_pattern_search :: "string \<Rightarrow> bool" where
  "error_start_pattern_search line = list_ex (\<lambda>lit. search_literal_ci lit line) error_start_literals"

section \<open>LogTailer: \<open>tail_log\<close>\<close>

text \<open>
  The generator interacts with the world through \<open>self.running\<close>, \<open>f.readline()\<close> and
  \<open>time.time()\<close>. Every iteration of the outer loop and every iteration of the inner loop
  first tests \<open>self.running\<close>, then calls \<open>f.readline()\<close> once and reads the clock at most
  once. A \<open>poll\<close> is what one such iteration observes: the string returned by
  \<open>readline\<close> (empty when no new data is in the file) and the value of \<open>time.time()\<close> in
  that iteration, in seconds. The list of polls given to the model holds the iterations
  performed while \<open>self.running\<close> is true; the flag is only ever set to false (by the signal
  handler), so the end of the list is the moment the loops see it false and the generator
  returns. The result is the list of the values yielded, in order.
\<close>

type_synonym poll = "string \<times> real"

fun outer :: "string list \<Rightarrow> poll list \<Rightarrow> string list"
and inner :: "string list \<Rightarrow> real \<Rightarrow> poll list \<Rightarrow> string list" where
  "outer current_trace [] = []"
| "outer current_trace ((line, now) # polls) =
     (if line = [] then outer current_trace polls
      else (let line = strip line in
        if error_start_pattern_search line then
          (if current_trace \<noteq> []
           then join_nl current_trace # inner ([] @ [line]) now polls
           else inner (current_trace @ [line]) now polls)
        else inner (current_trace @ [line]) now polls))"
| "inner current_trace start_time [] = []"
| "inner current_trace start_time ((next_line, now) # polls) =
     (if next_line = [] then
        (if now - start_time \<ge> 2 then
           (if current_trace \<noteq> []
            then join_nl current_trace # outer [] polls
            else outer current_trace polls)
         else inner current_trace start_time polls)
      else inner (current_trace @ [strip next_line]) now polls)"

text \<open>
  The part of the configuration that \<open>tail_log\<close> reads, and \<open>os.path.isfile\<close> as a
  parameter. With no usable log file the generator returns at once.
\<close>

record config =
  log_file :: "string option"
  enabled :: "bool option"
  n8n_url :: "string option"
  vhost_dir :: "string option"

definition tail_log :: "(string \<Rightarrow> bool) \<Rightarrow> config \<Rightarrow> poll list \<Rightarrow> string list" where
  "tail_log isfile cfg polls =
     (case log_file cfg of
        None \<Rightarrow> []
      | Some path \<Rightarrow> if path = [] \<or> \<not> isfile path then [] else outer [] polls)"

section \<open>Descriptions of what the tailer observes\<close>

text \<open>
  The claims speak of lines arriving and of idle periods. In terms of polls: a run of polls
  is \<open>idle\<close> when every \<open>readline\<close> in it returns the empty string, and
  \<open>quiet\<close> with respect to a start time when, in addition, every clock reading in it
  is less than 2 seconds after that start time (so that the inner loop does not time out).
  An \<open>arrival\<close> is a line together with the quiet polls that precede it and the clock
  reading taken right after it was read; a list of arrivals is \<open>timely\<close> when each
  line is read before the idle timer, restarted at its predecessor, has run out.
  \<open>lines_read\<close> is the list of the non-empty results of \<open>readline\<close>.
\<close>

definition idle :: "poll list \<Rightarrow> bool" where
  "idle ws = list_all (\<lambda>(l, now). l = []) ws"

definition quiet :: "real \<Rightarrow> poll list \<Rightarrow> bool" where
  "quiet start ws = list_all (\<lambda>(l, now). l = [] \<and> now - start < 2) ws"

type_synonym arrival = "poll list \<times> string \<times> real"

fun timely :: "real \<Rightarrow> arrival list \<Rightarrow> bool" where
  "timely start [] = True"
| "timely start ((ws, l, t) # as) = (quiet start ws \<and> l \<noteq> [] \<and> timely t as)"

fun feed :: "arrival list \<Rightarrow> poll list" where
  "feed [] = []"
| "feed ((ws, l, t) # as) = ws @ (l, t) # feed as"

fun last_read :: "real \<Rightarrow> arrival list \<Rightarrow> real" where
  "last_read start [] = start"
| "last_read start ((ws, l, t) # as) = last_read t as"

definition lines_of :: "arrival list \<Rightarrow> string list" where
  "lines_of as = map (\<lambda>(ws, l, t). l) as"



definition every_file :: "string \<Rightarrow> bool" where
  "every_file path = True"

definition demo_config :: config where
  "demo_config = \<lparr>log_file = Some ''/var/log/apache2/error.log'', enabled = Some True,
     n8n_url = Some ''http://localhost:5678/webhook'', vhost_dir = None\<rparr>"

section \<open>Properties of the tailer\<close>

lemma outer_idle: "idle ws \<Longrightarrow> outer ct (ws @ rest) = outer ct rest"
  by (induction ws) (auto simp: idle_def)

lemma inner_quiet: "quiet start ws \<Longrightarrow> inner ct start (ws @ rest) = inner ct start rest"
  by (induction ws) (auto simp: quiet_def)

lemma inner_line: "l \<noteq> [] \<Longrightarrow> inner ct start ((l, t) # rest) = inner (ct @ [strip l]) t rest"
  by simp

lemma inner_feed:
  "timely start as \<Longrightarrow>
   inner ct start (feed as @ rest) = inner (ct @ map strip (lines_of as)) (last_read start as) rest"
proof (induction as arbitrary: ct start)
  case Nil
  then show ?case by (simp add: lines_of_def)
next
  case (Cons a as)
  obtain ws l t where a: "a = (ws, l, t)" by (cases a)
  from Cons.prems a have q: "quiet start ws" and l: "l \<noteq> []" and t: "timely t as" by auto
  have "inner ct start (feed (a # as) @ rest) = inner ct start (ws @ (l, t) # feed as @ rest)"
    by (simp add: a)
  also have "\<dots> = inner ct start ((l, t) # feed as @ rest)"
    by (rule inner_quiet [OF q])
  also have "\<dots> = inner (ct @ [strip l]) t (feed as @ rest)"
    by (rule inner_line [OF l])
  also have "\<dots> = inner ((ct @ [strip l]) @ map strip (lines_of as)) (last_read t as) rest"
    by (rule Cons.IH [OF t])
  finally show ?case by (simp add: a lines_of_def)
qed

lemma outer_first_line: "l \<noteq> [] \<Longrightarrow> outer [] ((l, t) # rest) = inner [strip l] t rest"
  by (simp add: Let_def)

lemma inner_timeout:
  "ct \<noteq> [] \<Longrightarrow> now - start \<ge> 2 \<Longrightarrow> inner ct start (([], now) # rest) = join_nl ct # outer [] rest"
  by simp

lemma outer_nil_idle: "idle ws \<Longrightarrow> outer ct ws = []"
  by (induction ws) (auto simp: idle_def)

lemma inner_first_yield:
  "inner ct start polls = y # ys \<Longrightarrow> ct \<noteq> [] \<Longrightarrow> \<exists>more. y = join_nl (ct @ more)"
proof (induction polls arbitrary: ct start)
  case Nil
  then show ?case by simp
next
  case (Cons p polls)
  obtain l now where p: "p = (l, now)" by (cases p)
  show ?case
  proof (cases "l = []")
    case True
    show ?thesis
    proof (cases "now - start \<ge> 2")
      case True
      with \<open>l = []\<close> Cons.prems p have "y = join_nl ct" by simp
      then have "y = join_nl (ct @ [])" by simp
      then show ?thesis by blast
    next
      case False
      with \<open>l = []\<close> Cons.prems p have "inner ct start polls = y # ys" by simp
      from Cons.IH [OF this Cons.prems(2)] show ?thesis .
    qed
  next
    case False
    with Cons.prems p have "inner (ct @ [strip l]) now polls = y # ys" by simp
    from Cons.IH [OF this] obtain more where "y = join_nl ((ct @ [strip l]) @ more)" by auto
    then have "y = join_nl (ct @ (strip l # more))" by simp
    then show ?thesis by blast
  qed
qed



section \<open>Enrichment: the location of an error\<close>

text \<open>ASCII digits: what \<open>\d\<close> matches among the code points below 256.\<close>

definition is_digit :: "char \<Rightarrow> bool" where
  "is_digit c = (let n = (of_char c :: nat) in 48 \<le> n \<and> n \<le> 57)"

text \<open>\<open>int(s)\<close> for a string of ASCII digits.\<close>

definition int_of_digits :: "string \<Rightarrow> int" where
  "int_of_digits ds = foldl (\<lambda>a c. 10 * a + (int (of_char c) - 48)) 0 ds"

text \<open>
  \<open>re.search(r'in (.+?) on line (\d+)', error_line)\<close>. The pattern is a literal, a lazy
  group of one or more characters other than a newline, a literal, and a greedy group of
  one or more digits. \<open>match_on_line\<close> matches the tail \<open>' on line (\d+)'\<close> at the start
  of a string and returns the digits; \<open>match_lazy_path\<close> extends the first group one
  character at a time until the tail matches; \<open>match_here\<close> matches the whole pattern
  at the start of a string; \<open>re_search_location\<close> tries every start position from left
  to right and returns the two groups of the first match.
\<close>

definition match_on_line :: "string \<Rightarrow> string option" where
  "match_on_line s =
     (if startswith s '' on line ''
      then (let ds = takeWhile is_digit (drop 9 s) in if ds = [] then None else Some ds)
      else None)"

fun match_lazy_path :: "string \<Rightarrow> string \<Rightarrow> (string \<times> string) option" where
  "match_lazy_path group1 [] = None"
| "match_lazy_path group1 (c # cs) =
     (if c = newline then None
      else (case match_on_line cs of
              Some ds \<Rightarrow> Some (group1 @ [c], ds)
            | None \<Rightarrow> match_lazy_path (group1 @ [c]) cs))"

definition match_here :: "string \<Rightarrow> (string \<times> string) option" where
  "match_here s = (if startswith s ''in '' then match_lazy_path [] (drop 3 s) else None)"

fun re_search_location :: "string \<Rightarrow> (string \<times> string) option" where
  "re_search_location [] = None"
| "re_search_location (c # cs) =
     (case match_here (c # cs) of
        Some groups \<Rightarrow> Some groups
      | None \<Rightarrow> re_search_location cs)"

text \<open>
  What the specification calls the pattern "in <path> on line <integer>": the text splits
  into a prefix, the words \<open>in\<close>, a non-empty path without a newline, the words
  \<open>on line\<close>, a non-empty run of digits, and a rest.
\<close>

definition location_at :: "string \<Rightarrow> string \<Rightarrow> string \<Rightarrow> string \<Rightarrow> string \<Rightarrow> bool" where
  "location_at body pre path ds post =
     (body = pre @ ''in '' @ path @ '' on line '' @ ds @ post \<and>
      path \<noteq> [] \<and> newline \<notin> set path \<and> ds \<noteq> [] \<and> list_all is_digit ds)"

definition has_location :: "string \<Rightarrow> bool" where
  "has_location body = (\<exists>pre path ds post. location_at body pre path ds post)"

lemma startswith_iff: "startswith s p \<longleftrightarrow> (\<exists>r. s = p @ r)"
proof
  assume "startswith s p"
  then have "s = p @ drop (length p) s"
    unfolding startswith_def by (metis append_take_drop_id)
  then show "\<exists>r. s = p @ r" ..
next
  assume "\<exists>r. s = p @ r"
  then show "startswith s p" by (auto simp: startswith_def)
qed

lemma match_on_line_Some:
  assumes "match_on_line s = Some ds"
  shows "\<exists>post. s = '' on line '' @ ds @ post \<and> ds \<noteq> [] \<and> list_all is_digit ds \<and>
                (post = [] \<or> \<not> is_digit (hd post))"
proof -
  from assms have sw: "startswith s '' on line ''"
    by (auto simp: match_on_line_def split: if_splits)
  then obtain r where r: "s = '' on line '' @ r" by (auto simp: startswith_iff)
  then have d: "drop 9 s = r" by simp
  from assms sw d have ds: "ds = takeWhile is_digit r" and ne: "ds \<noteq> []"
    by (auto simp: match_on_line_def Let_def split: if_splits)
  define post where "post = dropWhile is_digit r"
  have "r = ds @ post" by (simp add: ds post_def)
  moreover have "list_all is_digit ds"
    unfolding ds list_all_iff by (auto dest: set_takeWhileD)
  moreover have "post = [] \<or> \<not> is_digit (hd post)"
    unfolding post_def using hd_dropWhile [of is_digit r] by blast
  ultimately show ?thesis using r ne by blast
qed

lemma match_on_line_complete:
  assumes "s = '' on line '' @ ds @ post" and "ds \<noteq> []" and "list_all is_digit ds"
  shows "match_on_line s \<noteq> None"
proof -
  from assms(1) have sw: "startswith s '' on line ''" by (auto simp: startswith_iff)
  from assms(1) have d: "drop 9 s = ds @ post" by simp
  from assms(3) have "takeWhile is_digit (ds @ post) = ds @ takeWhile is_digit post"
    by (simp add: list_all_iff)
  with assms(2) have "takeWhile is_digit (drop 9 s) \<noteq> []" by (simp add: d)
  with sw show ?thesis by (simp add: match_on_line_def Let_def)
qed

lemma match_lazy_path_sound:
  "match_lazy_path g s = Some (p, ds) \<Longrightarrow>
   \<exists>raw post. p = g @ raw \<and> raw \<noteq> [] \<and> newline \<notin> set raw \<and>
      s = raw @ '' on line '' @ ds @ post \<and> ds \<noteq> [] \<and> list_all is_digit ds \<and>
      (post = [] \<or> \<not> is_digit (hd post)) \<and>
      (\<forall>raw' ds' post'. s = raw' @ '' on line '' @ ds' @ post' \<and> raw' \<noteq> [] \<and>
          ds' \<noteq> [] \<and> list_all is_digit ds' \<longrightarrow> length raw \<le> length raw')"
proof (induction s arbitrary: g)
  case Nil
  then show ?case by simp
next
  case (Cons c cs)
  from Cons.prems have cn: "c \<noteq> newline" by (auto split: if_splits)
  show ?case
  proof (cases "match_on_line cs")
    case (Some ds0)
    with Cons.prems cn have p: "p = g @ [c]" and "ds0 = ds" by auto
    with Some have "match_on_line cs = Some ds" by simp
    from match_on_line_Some [OF this] obtain post where
      post: "cs = '' on line '' @ ds @ post" "ds \<noteq> []" "list_all is_digit ds"
        "post = [] \<or> \<not> is_digit (hd post)" by blast
    have min: "\<forall>raw' ds' post'. c # cs = raw' @ '' on line '' @ ds' @ post' \<and> raw' \<noteq> [] \<and>
          ds' \<noteq> [] \<and> list_all is_digit ds' \<longrightarrow> length [c] \<le> length raw'"
      by (auto simp: Suc_le_eq)
    have "p = g @ [c] \<and> [c] \<noteq> [] \<and> newline \<notin> set [c] \<and>
      c # cs = [c] @ '' on line '' @ ds @ post \<and> ds \<noteq> [] \<and> list_all is_digit ds \<and>
      (post = [] \<or> \<not> is_digit (hd post))"
      using p cn post by simp
    with min show ?thesis by blast
  next
    case None
    with Cons.prems cn have "match_lazy_path (g @ [c]) cs = Some (p, ds)" by simp
    from Cons.IH [OF this] obtain raw post where
      r: "p = (g @ [c]) @ raw" "raw \<noteq> []" "newline \<notin> set raw"
        "cs = raw @ '' on line '' @ ds @ post" "ds \<noteq> []" "list_all is_digit ds"
        "post = [] \<or> \<not> is_digit (hd post)"
      and m: "\<forall>raw' ds' post'. cs = raw' @ '' on line '' @ ds' @ post' \<and> raw' \<noteq> [] \<and>
          ds' \<noteq> [] \<and> list_all is_digit ds' \<longrightarrow> length raw \<le> length raw'"
      by blast
    have min: "length (c # raw) \<le> length raw'"
      if h: "c # cs = raw' @ '' on line '' @ ds' @ post'" "raw' \<noteq> []"
        "ds' \<noteq> []" "list_all is_digit ds'" for raw' ds' post'
    proof -
      from h(1,2) obtain raw'' where r': "raw' = c # raw''" and
        cs: "cs = raw'' @ '' on line '' @ ds' @ post'"
        by (cases raw') auto
      have "raw'' \<noteq> []"
      proof
        assume "raw'' = []"
        with cs have "cs = '' on line '' @ ds' @ post'" by simp
        from match_on_line_complete [OF this h(3) h(4)] None show False by simp
      qed
      with m cs h(3,4) have "length raw \<le> length raw''" by blast
      then show ?thesis by (simp add: r')
    qed
    have "p = g @ (c # raw) \<and> c # raw \<noteq> [] \<and> newline \<notin> set (c # raw) \<and>
      c # cs = (c # raw) @ '' on line '' @ ds @ post \<and> ds \<noteq> [] \<and> list_all is_digit ds \<and>
      (post = [] \<or> \<not> is_digit (hd post))"
      using r cn by simp
    moreover have "\<forall>raw' ds' post'. c # cs = raw' @ '' on line '' @ ds' @ post' \<and> raw' \<noteq> [] \<and>
          ds' \<noteq> [] \<and> list_all is_digit ds' \<longrightarrow> length (c # raw) \<le> length raw'"
      using min by blast
    ultimately show ?thesis by blast
  qed
qed

lemma match_lazy_path_complete:
  "s = raw @ '' on line '' @ ds @ post \<Longrightarrow> raw \<noteq> [] \<Longrightarrow> newline \<notin> set raw \<Longrightarrow>
   ds \<noteq> [] \<Longrightarrow> list_all is_digit ds \<Longrightarrow> match_lazy_path g s \<noteq> None"
proof (induction raw arbitrary: s g)
  case Nil
  then show ?case by simp
next
  case (Cons c raw)
  from Cons.prems(1) obtain cs where s: "s = c # cs" and
    cs: "cs = raw @ '' on line '' @ ds @ post" by simp
  from Cons.prems(3) have cn: "c \<noteq> newline" and rn: "newline \<notin> set raw" by auto
  show ?case
  proof (cases "match_on_line cs")
    case (Some a)
    with cn show ?thesis by (simp add: s)
  next
    case None
    have "raw \<noteq> []"
    proof
      assume "raw = []"
      with cs have "cs = '' on line '' @ ds @ post" by simp
      from match_on_line_complete [OF this Cons.prems(4,5)] None show False by simp
    qed
    from Cons.IH [OF cs this rn Cons.prems(4,5)] have "match_lazy_path (g @ [c]) cs \<noteq> None" .
    with None cn show ?thesis by (simp add: s)
  qed
qed

lemma match_here_Some:
  "match_here s = Some r \<longleftrightarrow> (\<exists>rest. s = ''in '' @ rest \<and> match_lazy_path [] rest = Some r)"
proof
  assume a: "match_here s = Some r"
  then have "startswith s ''in ''" by (auto simp: match_here_def split: if_splits)
  then obtain rest where s: "s = ''in '' @ rest" by (auto simp: startswith_iff)
  then have "drop 3 s = rest" by simp
  with a \<open>startswith s ''in ''\<close> have "match_lazy_path [] rest = Some r"
    by (simp add: match_here_def)
  with s show "\<exists>rest. s = ''in '' @ rest \<and> match_lazy_path [] rest = Some r" by blast
next
  assume "\<exists>rest. s = ''in '' @ rest \<and> match_lazy_path [] rest = Some r"
  then obtain rest where s: "s = ''in '' @ rest" and m: "match_lazy_path [] rest = Some r"
    by blast
  from s have "startswith s ''in ''" by (auto simp: startswith_iff)
  moreover from s have "drop 3 s = rest" by simp
  ultimately show "match_here s = Some r" using m by (simp add: match_here_def)
qed

lemma match_here_complete:
  assumes "location_at s [] path ds post"
  shows "match_here s \<noteq> None"
proof -
  from assms have s: "s = ''in '' @ (path @ '' on line '' @ ds @ post)"
    and p: "path \<noteq> []" "newline \<notin> set path" "ds \<noteq> []" "list_all is_digit ds"
    by (simp_all add: location_at_def)
  from match_lazy_path_complete [OF refl p, where post = post and g = "[]"]
  obtain r where "match_lazy_path [] (path @ '' on line '' @ ds @ post) = Some r" by auto
  with s have "match_here s = Some r" unfolding match_here_Some by blast
  then show ?thesis by simp
qed

lemma match_here_sound:
  assumes "match_here s = Some (path, ds)"
  shows "\<exists>post. location_at s [] path ds post \<and> (post = [] \<or> \<not> is_digit (hd post)) \<and>
     (\<forall>path' ds' post'. location_at s [] path' ds' post' \<longrightarrow> length path \<le> length path')"
proof -
  from assms obtain rest where s: "s = ''in '' @ rest"
    and m: "match_lazy_path [] rest = Some (path, ds)"
    unfolding match_here_Some by blast
  from match_lazy_path_sound [OF m] obtain raw post where
    r: "path = [] @ raw" "raw \<noteq> []" "newline \<notin> set raw"
      "rest = raw @ '' on line '' @ ds @ post" "ds \<noteq> []" "list_all is_digit ds"
      "post = [] \<or> \<not> is_digit (hd post)"
    and min: "\<forall>raw' ds' post'. rest = raw' @ '' on line '' @ ds' @ post' \<and> raw' \<noteq> [] \<and>
          ds' \<noteq> [] \<and> list_all is_digit ds' \<longrightarrow> length raw \<le> length raw'"
    by blast
  have l: "location_at s [] path ds post"
    using s r by (simp add: location_at_def)
  have "length path \<le> length path'" if "location_at s [] path' ds' post'" for path' ds' post'
  proof -
    from that s have "rest = path' @ '' on line '' @ ds' @ post'" "path' \<noteq> []" "ds' \<noteq> []"
      "list_all is_digit ds'"
      by (simp_all add: location_at_def)
    with min have "length raw \<le> length path'" by blast
    with r(1) show ?thesis by simp
  qed
  with l r(7) show ?thesis by blast
qed

lemma location_at_Cons:
  "location_at (c # cs) (c' # pre) path ds post \<longleftrightarrow> c' = c \<and> location_at cs pre path ds post"
  by (auto simp: location_at_def)

lemma re_search_location_sound:
  "re_search_location body = Some (path, ds) \<Longrightarrow>
   \<exists>pre post. location_at body pre path ds post \<and> (post = [] \<or> \<not> is_digit (hd post)) \<and>
     (\<forall>pre' path' ds' post'. location_at body pre' path' ds' post' \<longrightarrow>
        length pre \<le> length pre' \<and> (length pre' = length pre \<longrightarrow> length path \<le> length path'))"
proof (induction body)
  case Nil
  then show ?case by simp
next
  case (Cons c cs)
  show ?case
  proof (cases "match_here (c # cs)")
    case (Some r)
    with Cons.prems have "match_here (c # cs) = Some (path, ds)" by simp
    from match_here_sound [OF this] obtain post where
      l: "location_at (c # cs) [] path ds post" "post = [] \<or> \<not> is_digit (hd post)"
      and min: "\<forall>path' ds' post'. location_at (c # cs) [] path' ds' post' \<longrightarrow>
                  length path \<le> length path'"
      by blast
    have "\<forall>pre' path' ds' post'. location_at (c # cs) pre' path' ds' post' \<longrightarrow>
        length [] \<le> length pre' \<and> (length pre' = length ([]::string) \<longrightarrow> length path \<le> length path')"
      using min by auto
    with l show ?thesis by blast
  next
    case None
    with Cons.prems have "re_search_location cs = Some (path, ds)" by simp
    from Cons.IH [OF this] obtain pre post where
      l: "location_at cs pre path ds post" "post = [] \<or> \<not> is_digit (hd post)"
      and min: "\<forall>pre' path' ds' post'. location_at cs pre' path' ds' post' \<longrightarrow>
        length pre \<le> length pre' \<and> (length pre' = length pre \<longrightarrow> length path \<le> length path')"
      by blast
    have l': "location_at (c # cs) (c # pre) path ds post"
      using l(1) by (simp add: location_at_Cons)
    have "length (c # pre) \<le> length pre' \<and>
          (length pre' = length (c # pre) \<longrightarrow> length path \<le> length path')"
      if h: "location_at (c # cs) pre' path' ds' post'" for pre' path' ds' post'
    proof (cases pre')
      case Nil
      with h match_here_complete [of "c # cs" path' ds' post'] None show ?thesis by simp
    next
      case (Cons c' pre'')
      with h have "location_at cs pre'' path' ds' post'" by (simp add: location_at_Cons)
      with min have "length pre \<le> length pre'' \<and>
         (length pre'' = length pre \<longrightarrow> length path \<le> length path')" by blast
      then show ?thesis by (simp add: Cons)
    qed
    with l' l(2) show ?thesis by blast
  qed
qed

lemma re_search_location_complete:
  "location_at body pre path ds post \<Longrightarrow> re_search_location body \<noteq> None"
proof (induction pre arbitrary: body)
  case Nil
  from match_here_complete [OF Nil] obtain r where r: "match_here body = Some r" by auto
  then have "body \<noteq> []" by (auto simp: match_here_Some)
  then obtain c cs where "body = c # cs" by (cases body) auto
  with r show ?case by simp
next
  case (Cons c' pre)
  then obtain cs where t: "body = c' # cs" by (auto simp: location_at_def)
  with Cons.prems have "location_at cs pre path ds post" by (simp add: location_at_Cons)
  from Cons.IH [OF this] show ?case by (simp add: t split: option.splits)
qed

lemma re_search_location_None: "re_search_location body = None \<longleftrightarrow> \<not> has_location body"
proof
  assume "re_search_location body = None"
  then show "\<not> has_location body"
    using re_search_location_complete [of body] by (auto simp: has_location_def)
next
  assume n: "\<not> has_location body"
  show "re_search_location body = None"
  proof (cases "re_search_location body")
    case None
    then show ?thesis .
  next
    case (Some r)
    obtain path ds where "r = (path, ds)" by (cases r)
    with Some re_search_location_sound [of body path ds] n show ?thesis
      by (auto simp: has_location_def)
  qed
qed

section \<open>Enrichment: reading the output of git blame\<close>

text \<open>
  The exceptions that can leave the functions modelled below: \<open>KeyError\<close> from reading
  a cache entry that is gone, \<open>OSError\<close> when a subprocess cannot be started (the
  executable or the working directory is missing; \<open>FileNotFoundError\<close> is one),
  \<open>ValueError\<close> from \<open>os.path.relpath\<close> on an empty path or from storing into a cache
  of capacity zero, \<open>IndexError\<close> from indexing an empty list.
\<close>

datatype exn = KeyError | OSError | ValueError | IndexError

text \<open>
  \<open>s.splitlines()\<close>: among the code points below 256 a line ends at \<open>\n\<close>, \<open>\r\<close>,
  \<open>\r\n\<close>, \<open>\v\<close>, \<open>\f\<close>, \<open>\x1c\<close>, \<open>\x1d\<close>, \<open>\x1e\<close> and \<open>\x85\<close>; a line
  end at the end of the string opens no further line.
\<close>

definition is_linebreak :: "char \<Rightarrow> bool" where
  "is_linebreak c = ((of_char c :: nat) \<in> {10, 11, 12, 13, 28, 29, 30, 133})"

fun splitlines_from :: "string \<Rightarrow> string \<Rightarrow> string list" where
  "splitlines_from cur [] = (if cur = [] then [] else [cur])"
| "splitlines_from cur [c] = (if is_linebreak c then [cur] else [cur @ [c]])"
| "splitlines_from cur (c # d # cs) =
     (if c = CHR 0x0D \<and> d = CHR 0x0A then cur # splitlines_from [] cs
      else if is_linebreak c then cur # splitlines_from [] (d # cs)
      else splitlines_from (cur @ [c]) (d # cs))"

definition splitlines :: "string \<Rightarrow> string list" where
  "splitlines s = splitlines_from [] s"

text \<open>\<open>s.split()\<close>: the maximal runs of characters that are not white space.\<close>

fun split_from :: "string \<Rightarrow> string \<Rightarrow> string list" where
  "split_from word [] = (if word = [] then [] else [word])"
| "split_from word (c # cs) =
     (if is_space c then (if word = [] then split_from [] cs else word # split_from [] cs)
      else split_from (word @ [c]) cs)"

definition split_ws :: "string \<Rightarrow> string list" where
  "split_ws s = split_from [] s"

text \<open>\<open>s.strip(chars)\<close>.\<close>

definition strip_chars :: "string \<Rightarrow> string \<Rightarrow> string" where
  "strip_chars chars s =
     rev (dropWhile (\<lambda>c. c \<in> set chars) (rev (dropWhile (\<lambda>c. c \<in> set chars) s)))"

text \<open>\<open>re.match(r"^[a-f0-9]{40}", line)\<close>: the line starts with 40 characters, each a digit
  or one of the small letters a to f.\<close>

definition is_lower_hex :: "char \<Rightarrow> bool" where
  "is_lower_hex c =
     (let n = (of_char c :: nat) in (48 \<le> n \<and> n \<le> 57) \<or> (97 \<le> n \<and> n \<le> 102))"

definition re_match_hex40 :: "string \<Rightarrow> bool" where
  "re_match_hex40 l = (40 \<le> length l \<and> list_all is_lower_hex (take 40 l))"

text \<open>
  The dict built by \<open>get_git_blame\<close> (lines 337 to 342) and the loop over the lines of
  the output (lines 344 to 352). Every branch assigns to its key, so a later line of the
  same kind replaces what an earlier one stored.
\<close>

record blame_record =
  author :: "string option"
  email :: "string option"
  commit :: "string option"
  summary :: "string option"

fun blame_loop :: "blame_record \<Rightarrow> string list \<Rightarrow> exn + blame_record" where
  "blame_loop blame [] = Inr blame"
| "blame_loop blame (l # ls) =
     (if startswith l ''author '' then blame_loop (blame\<lparr>author := Some (drop 7 l)\<rparr>) ls
      else if startswith l ''author-mail ''
        then blame_loop (blame\<lparr>email := Some (strip_chars ''<>'' (drop 12 l))\<rparr>) ls
      else if startswith l ''summary '' then blame_loop (blame\<lparr>summary := Some (drop 8 l)\<rparr>) ls
      else if re_match_hex40 l then
        (case split_ws l of
           [] \<Rightarrow> Inl IndexError
         | w # ws \<Rightarrow> blame_loop (blame\<lparr>commit := Some (take 8 w)\<rparr>) ls)
      else blame_loop blame ls)"

definition parse_blame :: "string \<Rightarrow> exn + blame_record" where
  "parse_blame blame_output =
     blame_loop \<lparr>author = None, email = None, commit = None, summary = None\<rparr>
       (splitlines blame_output)"

text \<open>An output of \<open>git blame -L 12,12 --porcelain\<close>, for the examples.\<close>

definition demo_blame_output :: string where
  "demo_blame_output =
     ''3f2a9c0d1e4b5a6978877665544332211000ffee 12 12 1'' @ [newline] @
     ''author Jane Doe'' @ [newline] @
     ''author-mail <a@b.com>'' @ [newline] @
     ''author-time 1700000000'' @ [newline] @
     ''summary Fix the index page'' @ [newline] @
     ''filename index.php'' @ [newline] @
     [CHR 0x09] @ ''echo 1;'' @ [newline]"


text \<open>The last line of a list that satisfies a test, if there is one.\<close>

definition last_line_with :: "(string \<Rightarrow> bool) \<Rightarrow> string list \<Rightarrow> string option" where
  "last_line_with P ls = (case filter P ls of [] \<Rightarrow> None | x # xs \<Rightarrow> Some (last (x # xs)))"

subsection \<open>Properties of the parser\<close>

lemma last_line_with_Nil: "last_line_with P [] = None"
  by (simp add: last_line_with_def)

lemma last_line_with_Cons:
  "last_line_with P (l # ls) =
     (case last_line_with P ls of Some x \<Rightarrow> Some x | None \<Rightarrow> if P l then Some l else None)"
  by (auto simp: last_line_with_def split: list.splits)

lemma split_from_word:
  "word \<noteq> [] \<Longrightarrow> \<exists>w ws. split_from word r = w # ws \<and> take (length word) w = word"
proof (induction r arbitrary: word)
  case Nil
  then show ?case by simp
next
  case (Cons c cs)
  show ?case
  proof (cases "is_space c")
    case True
    with Cons.prems show ?thesis by simp
  next
    case False
    from Cons.IH [of "word @ [c]"] obtain w ws where
      w: "split_from (word @ [c]) cs = w # ws" "take (length (word @ [c])) w = word @ [c]"
      by auto
    from w(2) have "take (length word) (take (length (word @ [c])) w) = take (length word) (word @ [c])"
      by simp
    then have "take (length word) w = word" by (simp add: min_def)
    with w(1) False show ?thesis by simp
  qed
qed

lemma split_from_prefix:
  "list_all (\<lambda>c. \<not> is_space c) p \<Longrightarrow> word @ p \<noteq> [] \<Longrightarrow>
   \<exists>w ws. split_from word (p @ r) = w # ws \<and> take (length (word @ p)) w = word @ p"
proof (induction p arbitrary: word)
  case Nil
  then show ?case using split_from_word [of word r] by simp
next
  case (Cons c p)
  from Cons.prems(1) have c: "\<not> is_space c" and p: "list_all (\<lambda>c. \<not> is_space c) p" by simp_all
  from Cons.IH [OF p, of "word @ [c]"] obtain w ws where
    "split_from (word @ [c]) (p @ r) = w # ws" "take (length ((word @ [c]) @ p)) w = (word @ [c]) @ p"
    by auto
  with c show ?case by simp
qed

lemma lower_hex_not_space: "is_lower_hex c \<Longrightarrow> \<not> is_space c"
  by (auto simp: is_lower_hex_def is_space_def Let_def)

lemma hex40_first_word:
  assumes "re_match_hex40 l"
  shows "\<exists>w ws. split_ws l = w # ws \<and> take 8 w = take 8 l"
proof -
  from assms have len: "40 \<le> length l" and hex: "list_all is_lower_hex (take 40 l)"
    by (simp_all add: re_match_hex40_def)
  from hex have ns: "list_all (\<lambda>c. \<not> is_space c) (take 40 l)"
    by (auto simp: list_all_iff dest: lower_hex_not_space)
  from len have ne: "[] @ take 40 l \<noteq> []" by auto
  from split_from_prefix [OF ns ne, of "drop 40 l"] obtain w ws where
    w: "split_from [] (take 40 l @ drop 40 l) = w # ws" "take (length ([] @ take 40 l)) w = [] @ take 40 l"
    by blast
  from len have "length (take 40 l) = 40" by simp
  with w(2) have "take 40 w = take 40 l" by (simp del: length_take)
  then have "take 8 (take 40 w) = take 8 (take 40 l)" by simp
  then have "take 8 w = take 8 l" by (simp add: min_def)
  with w(1) show ?thesis by (simp add: split_ws_def)
qed

lemma startswith_literals:
  "startswith l ''author '' \<Longrightarrow> \<not> startswith l ''author-mail ''"
  "startswith l ''author '' \<Longrightarrow> \<not> startswith l ''summary ''"
  "startswith l ''author '' \<Longrightarrow> \<not> re_match_hex40 l"
  "startswith l ''author-mail '' \<Longrightarrow> \<not> startswith l ''summary ''"
  "startswith l ''author-mail '' \<Longrightarrow> \<not> re_match_hex40 l"
  "startswith l ''summary '' \<Longrightarrow> \<not> re_match_hex40 l"
  by (auto simp: startswith_iff re_match_hex40_def is_lower_hex_def startswith_def)

lemma blame_loop_fields:
  "\<exists>b. blame_loop blame ls = Inr b \<and>
     author b = (case last_line_with (\<lambda>l. startswith l ''author '') ls of
                   None \<Rightarrow> author blame | Some l \<Rightarrow> Some (drop 7 l)) \<and>
     email b = (case last_line_with (\<lambda>l. startswith l ''author-mail '') ls of
                   None \<Rightarrow> email blame | Some l \<Rightarrow> Some (strip_chars ''<>'' (drop 12 l))) \<and>
     summary b = (case last_line_with (\<lambda>l. startswith l ''summary '') ls of
                   None \<Rightarrow> summary blame | Some l \<Rightarrow> Some (drop 8 l)) \<and>
     commit b = (case last_line_with re_match_hex40 ls of
                   None \<Rightarrow> commit blame | Some l \<Rightarrow> Some (take 8 l))"
proof (induction ls arbitrary: blame)
  case Nil
  then show ?case by (simp add: last_line_with_Nil)
next
  case (Cons l ls)
  consider (a) "startswith l ''author ''"
    | (m) "\<not> startswith l ''author ''" "startswith l ''author-mail ''"
    | (s) "\<not> startswith l ''author ''" "\<not> startswith l ''author-mail ''" "startswith l ''summary ''"
    | (h) "\<not> startswith l ''author ''" "\<not> startswith l ''author-mail ''"
          "\<not> startswith l ''summary ''" "re_match_hex40 l"
    | (n) "\<not> startswith l ''author ''" "\<not> startswith l ''author-mail ''"
          "\<not> startswith l ''summary ''" "\<not> re_match_hex40 l"
    by blast
  then show ?case
  proof cases
    case a
    from Cons.IH [of "blame\<lparr>author := Some (drop 7 l)\<rparr>"] a startswith_literals(1-3) [OF a]
    show ?thesis by (auto simp: last_line_with_Cons split: option.splits)
  next
    case m
    from Cons.IH [of "blame\<lparr>email := Some (strip_chars ''<>'' (drop 12 l))\<rparr>"] m
      startswith_literals(4,5) [OF m(2)]
    show ?thesis by (auto simp: last_line_with_Cons split: option.splits)
  next
    case s
    from Cons.IH [of "blame\<lparr>summary := Some (drop 8 l)\<rparr>"] s
      startswith_literals(6) [OF s(3)]
    show ?thesis by (auto simp: last_line_with_Cons split: option.splits)
  next
    case h
    from hex40_first_word [OF h(4)] obtain w ws where
      w: "split_ws l = w # ws" "take 8 w = take 8 l" by blast
    from Cons.IH [of "blame\<lparr>commit := Some (take 8 w)\<rparr>"] h w
    show ?thesis by (auto simp: last_line_with_Cons split: option.splits)
  next
    case n
    from Cons.IH [of blame] n
    show ?thesis by (auto simp: last_line_with_Cons split: option.splits)
  qed
qed

section \<open>The world outside the watcher\<close>

text \<open>
  \<open>get_project_info\<close> reads the timer of its caches and starts subprocesses. The world
  answers both: \<open>timer w n\<close> is the n-th value the timer returns (counting from 0 over
  the life of the watcher), \<open>run_process w n argv cwd\<close> is what happens to the n-th
  subprocess when it is started with these arguments in this working directory: it exits
  with a return code and an output, or it cannot be started. \<open>os.path.abspath\<close> and
  \<open>os.path.relpath\<close> depend on the working directory of the watcher and are parameters
  too.
\<close>

datatype proc = Exited int string | NotStarted

record world =
  timer :: "nat \<Rightarrow> real"
  run_process :: "nat \<Rightarrow> string list \<Rightarrow> string option \<Rightarrow> proc"
  abspath :: "string \<Rightarrow> string"
  relpath :: "string \<Rightarrow> string \<Rightarrow> string"

section \<open>TTLCache\<close>

text \<open>
  \<open>cachetools.TTLCache(maxsize, ttl)\<close>, as far as the watcher uses it: \<open>key in cache\<close>,
  \<open>cache[key]\<close> and \<open>cache[key] = value\<close>. Each of the three reads the timer once. The
  entries are kept with their expiry times, least recently touched first. An entry is
  visible while the timer is below its expiry time. Reading moves the entry to the end;
  storing first removes the expired entries, then, for a new key, the least recently
  touched ones until there is room, and puts the entry at the end with expiry time
  \<open>now + ttl\<close>. The timer of the caches does not go backwards, so the entries that have
  expired are exactly those whose expiry time is not above the present reading.
\<close>

record ('k, 'v) ttl_cache =
  maxsize :: nat
  ttl :: real
  links :: "('k \<times> 'v \<times> real) list"

definition ttl_contains :: "('k, 'v) ttl_cache \<Rightarrow> 'k \<Rightarrow> real \<Rightarrow> bool" where
  "ttl_contains c key now =
     (case map_of (links c) key of None \<Rightarrow> False | Some (v, expires) \<Rightarrow> now < expires)"

definition move_to_end :: "'k \<Rightarrow> 'v \<Rightarrow> real \<Rightarrow> ('k \<times> 'v \<times> real) list \<Rightarrow> ('k \<times> 'v \<times> real) list" where
  "move_to_end key v expires ls = filter (\<lambda>l. fst l \<noteq> key) ls @ [(key, v, expires)]"

definition ttl_getitem :: "('k, 'v) ttl_cache \<Rightarrow> 'k \<Rightarrow> real \<Rightarrow> (exn + 'v) \<times> ('k, 'v) ttl_cache" where
  "ttl_getitem c key now =
     (case map_of (links c) key of
        None \<Rightarrow> (Inl KeyError, c)
      | Some (v, expires) \<Rightarrow>
          (if now < expires then Inr v else Inl KeyError,
           c\<lparr>links := move_to_end key v expires (links c)\<rparr>))"

definition expire :: "real \<Rightarrow> ('k \<times> 'v \<times> real) list \<Rightarrow> ('k \<times> 'v \<times> real) list" where
  "expire now ls = filter (\<lambda>l. now < snd (snd l)) ls"

definition ttl_setitem ::
  "('k, 'v) ttl_cache \<Rightarrow> 'k \<Rightarrow> 'v \<Rightarrow> real \<Rightarrow> (exn + unit) \<times> ('k, 'v) ttl_cache" where
  "ttl_setitem c key v now =
     (let live = expire now (links c) in
      if 1 > maxsize c then (Inl ValueError, c\<lparr>links := live\<rparr>)
      else
        (let kept = (if map_of live key = None
                     then drop (length live + 1 - maxsize c) live else live)
         in (Inr (), c\<lparr>links := move_to_end key v (now + ttl c) kept\<rparr>)))"

section \<open>The watcher\<close>

text \<open>
  The dict returned by \<open>get_project_info\<close> (keys \<open>file\<close>, \<open>line\<close>, \<open>vhost\<close>,
  \<open>git_remote\<close>, \<open>error_line\<close>, \<open>blame\<close>), and the state of a \<open>LogWatcher\<close>: its
  configuration and its four caches, together with a record of what it has done to the
  world so far: how many timer values it has read, the subprocesses it has started
  (arguments and working directory), the traces \<open>get_project_info\<close> was called with, and
  the POST requests it has issued (URL, \<open>error_line\<close>, \<open>error_detail\<close>).
\<close>

record project_info =
  info_file :: string
  info_line :: int
  info_vhost :: "string option"
  info_git_remote :: string
  info_error_line :: string
  info_blame :: "blame_record option"

record watcher =
  config :: config
  vhost_cache :: "string \<rightharpoonup> string"
  git_root_cache :: "(string, string option) ttl_cache"
  git_remote_cache :: "(string, string) ttl_cache"
  git_blame_cache :: "(string, blame_record option) ttl_cache"
  clock_reads :: nat
  processes :: "(string list \<times> string option) list"
  enriched :: "string list"
  posts :: "(string \<times> string \<times> project_info option) list"

text \<open>The caches as \<open>__init__\<close> creates them (lines 64 to 67).\<close>

definition new_watcher :: "config \<Rightarrow> watcher" where
  "new_watcher cfg =
     \<lparr>config = cfg, vhost_cache = Map.empty,
      git_root_cache = \<lparr>maxsize = 1000, ttl = 3600, links = []\<rparr>,
      git_remote_cache = \<lparr>maxsize = 1000, ttl = 3600, links = []\<rparr>,
      git_blame_cache = \<lparr>maxsize = 5000, ttl = 3600, links = []\<rparr>,
      clock_reads = 0, processes = [], enriched = [], posts = []\<rparr>"

text \<open>
  An action changes the watcher and returns a value or raises. \<open>and_then\<close> runs a second
  action on the value of a first one, unless the first one raised.
  \<open>subprocess.check_output\<close> returns the output of a process that exits with code 0 and
  raises \<open>CalledProcessError\<close> (here the value \<open>None\<close>, which every caller catches) when
  the code is not 0; when the process cannot be started it raises \<open>OSError\<close>, which no
  caller but \<open>send_to_n8n\<close> catches.
\<close>

type_synonym 'a action = "watcher \<Rightarrow> (exn + 'a) \<times> watcher"

definition and_then :: "'a action \<Rightarrow> ('a \<Rightarrow> 'b action) \<Rightarrow> 'b action" where
  "and_then m f s = (case m s of (Inl e, s') \<Rightarrow> (Inl e, s') | (Inr a, s') \<Rightarrow> f a s')"

definition read_timer :: "world \<Rightarrow> real action" where
  "read_timer w s = (Inr (timer w (clock_reads s)), s\<lparr>clock_reads := Suc (clock_reads s)\<rparr>)"

definition subprocess :: "world \<Rightarrow> string list \<Rightarrow> string option \<Rightarrow> watcher \<Rightarrow> proc \<times> watcher" where
  "subprocess w argv cwd s =
     (run_process w (length (processes s)) argv cwd, s\<lparr>processes := processes s @ [(argv, cwd)]\<rparr>)"

definition check_output :: "world \<Rightarrow> string list \<Rightarrow> string option \<Rightarrow> (string option) action" where
  "check_output w argv cwd s =
     (case subprocess w argv cwd s of
        (NotStarted, s') \<Rightarrow> (Inl OSError, s')
      | (Exited returncode out, s') \<Rightarrow> (Inr (if returncode = 0 then Some out else None), s'))"

section \<open>Paths and numbers\<close>

text \<open>\<open>os.path.dirname\<close> (POSIX) and \<open>str(n)\<close> for an integer.\<close>

definition dirname :: "string \<Rightarrow> string" where
  "dirname p =
     (let head = rev (dropWhile (\<lambda>c. c \<noteq> CHR ''/'') (rev p)) in
      if head \<noteq> [] \<and> head \<noteq> replicate (length head) (CHR ''/'')
      then rev (dropWhile (\<lambda>c. c = CHR ''/'') (rev head)) else head)"

fun digits_of :: "nat \<Rightarrow> string" where
  "digits_of n =
     (if n < 10 then [char_of (48 + n)] else digits_of (n div 10) @ [char_of (48 + n mod 10)])"

definition str_int :: "int \<Rightarrow> string" where
  "str_int i = (if i < 0 then CHR ''-'' # digits_of (nat (- i)) else digits_of (nat i))"


lemma length_dirname: "length (dirname p) \<le> length p"
proof -
  have a: "length (dropWhile P xs) \<le> length xs" for P and xs :: string
    by (rule length_dropWhile_le)
  define head where "head = rev (dropWhile (\<lambda>c. c \<noteq> CHR ''/'') (rev p))"
  have h: "length head \<le> length p" unfolding head_def using a [of _ "rev p"] by simp
  have "length (rev (dropWhile (\<lambda>c. c = CHR ''/'') (rev head))) \<le> length head"
    using a [of _ "rev head"] by simp
  with h show ?thesis unfolding dirname_def Let_def head_def [symmetric] by auto
qed

lemma dirname_prefix: "dirname p = take (length (dirname p)) p"
proof -
  have a: "rev (dropWhile P (rev xs)) = take (length (rev (dropWhile P (rev xs)))) xs"
    for P and xs :: string
  proof -
    have "rev xs = takeWhile P (rev xs) @ dropWhile P (rev xs)" by simp
    then have "xs = rev (dropWhile P (rev xs)) @ rev (takeWhile P (rev xs))"
      by (metis rev_append rev_rev_ident)
    then show ?thesis by (metis append_eq_conv_conj)
  qed
  define head where "head = rev (dropWhile (\<lambda>c. c \<noteq> CHR ''/'') (rev p))"
  have h: "head = take (length head) p" unfolding head_def by (rule a)
  define d where "d = rev (dropWhile (\<lambda>c. c = CHR ''/'') (rev head))"
  have d: "d = take (length d) head" unfolding d_def by (rule a)
  have "length d \<le> length head" using d by (metis length_take min.cobounded2 min.commute)
  with d h have "d = take (length d) p" by (metis min.absorb1 take_take)
  with h show ?thesis unfolding dirname_def Let_def head_def [symmetric] d_def [symmetric] by auto
qed

lemma dirname_shorter: "dirname p \<noteq> p \<Longrightarrow> length (dirname p) < length p"
  using length_dirname [of p] dirname_prefix [of p]
  by (metis le_neq_implies_less take_all order_refl)

section \<open>Enrichment: the lookups\<close>

text \<open>
  \<open>find_vhost_for_path\<close> (lines 213 to 249). \<open>vhost_search\<close> is its \<open>while True\<close>
  loop: run grep for the directory, stop at the first non-empty output, otherwise go to
  the parent directory, and stop when the parent is the directory itself or the root.
  \<open>subprocess.run\<close> with \<open>check=False\<close> never raises \<open>CalledProcessError\<close>. The string
  found, empty when nothing was found, is stored in \<open>vhost_cache\<close> under the file path.
\<close>

function vhost_search :: "world \<Rightarrow> string \<Rightarrow> string \<Rightarrow> string action" where
  "vhost_search w vdir search_path s =
     (case subprocess w [''grep'', ''-l'', search_path, vdir @ ''/*''] None s of
        (NotStarted, s') \<Rightarrow> (Inl OSError, s')
      | (Exited returncode out, s') \<Rightarrow>
          (let found_vhost = strip out in
           if found_vhost \<noteq> [] then (Inr found_vhost, s')
           else (let parent_path = dirname search_path in
             if parent_path = search_path \<or> parent_path = ''/'' then (Inr found_vhost, s')
             else vhost_search w vdir parent_path s')))"
  by pat_completeness auto
termination
  by (relation "measure (\<lambda>(w, vdir, search_path, s). length search_path)")
     (auto simp: dirname_shorter)

declare vhost_search.simps [simp del]

definition find_vhost_for_path :: "world \<Rightarrow> string \<Rightarrow> string action" where
  "find_vhost_for_path w file_path s =
     (let vdir = (case vhost_dir (config s) of
                    None \<Rightarrow> ''/etc/apache2/sites-enabled'' | Some d \<Rightarrow> d) in
      case vhost_cache s file_path of
        Some cached \<Rightarrow> (Inr cached, s)
      | None \<Rightarrow>
          and_then (vhost_search w vdir (dirname file_path))
            (\<lambda>found_vhost s'.
               (Inr found_vhost, s'\<lparr>vhost_cache := (vhost_cache s')(file_path \<mapsto> found_vhost)\<rparr>)) s)"

text \<open>
  Lines 272 to 283, 285 to 296 and 298 to 303 are the same steps on three caches:
  \<open>if key in cache: value = cache[key]\<close>, \<open>else: value = compute(); cache[key] = value\<close>.
  \<open>cached\<close> is that pattern for a cache given by its field and the update of that field.
  The resolvers are the \<open>try\<close> blocks: the top-level directory of the repository
  (\<open>None\<close> when git exits with an error), the URL of the remote \<open>origin\<close>
  (\<open>unknown\<close> when git exits with an error or prints nothing), and \<open>get_git_blame\<close>.
\<close>

definition cached ::
  "world \<Rightarrow> (watcher \<Rightarrow> ('k, 'v) ttl_cache) \<Rightarrow> (('k, 'v) ttl_cache \<Rightarrow> watcher \<Rightarrow> watcher) \<Rightarrow>
   'k \<Rightarrow> 'v action \<Rightarrow> 'v action" where
  "cached w cache store key compute =
     and_then (read_timer w) (\<lambda>t s.
       if ttl_contains (cache s) key t then
         and_then (read_timer w) (\<lambda>t' s'.
           (case ttl_getitem (cache s') key t' of (r, c) \<Rightarrow> (r, store c s'))) s
       else
         and_then compute (\<lambda>v.
           and_then (read_timer w) (\<lambda>t' s'.
             (case ttl_setitem (cache s') key v t' of
                (Inl e, c) \<Rightarrow> (Inl e, store c s')
              | (Inr u, c) \<Rightarrow> (Inr v, store c s')))) s)"

definition resolve_git_root :: "world \<Rightarrow> string \<Rightarrow> (string option) action" where
  "resolve_git_root w dir_path =
     and_then (check_output w [''git'', ''rev-parse'', ''--show-toplevel''] (Some dir_path))
       (\<lambda>out s. (Inr (map_option strip out), s))"

definition lookup_git_root :: "world \<Rightarrow> string \<Rightarrow> (string option) action" where
  "lookup_git_root w dir_path =
     cached w git_root_cache (\<lambda>c s. s\<lparr>git_root_cache := c\<rparr>) dir_path
       (resolve_git_root w dir_path)"

definition resolve_git_remote :: "world \<Rightarrow> string \<Rightarrow> string action" where
  "resolve_git_remote w dir_path =
     and_then (check_output w [''git'', ''config'', ''--get'', ''remote.origin.url''] (Some dir_path))
       (\<lambda>out s. (Inr (case out of
                        None \<Rightarrow> ''unknown''
                      | Some stdout \<Rightarrow> if strip stdout \<noteq> [] then strip stdout else ''unknown''), s))"

definition lookup_git_remote :: "world \<Rightarrow> string \<Rightarrow> string action" where
  "lookup_git_remote w dir_path =
     cached w git_remote_cache (\<lambda>c s. s\<lparr>git_remote_cache := c\<rparr>) dir_path
       (resolve_git_remote w dir_path)"

text \<open>
  \<open>get_git_blame\<close> (lines 314 to 358). \<open>not repo_path\<close> holds for \<open>None\<close> and for the
  empty string. \<open>os.path.relpath\<close> raises \<open>ValueError\<close> on an empty path.
\<close>

definition get_git_blame ::
  "world \<Rightarrow> string \<Rightarrow> int \<Rightarrow> string option \<Rightarrow> (blame_record option) action" where
  "get_git_blame w file_path line_number repo_path s =
     (case repo_path of
        None \<Rightarrow> (Inr None, s)
      | Some repo \<Rightarrow>
          if repo = [] then (Inr None, s)
          else if file_path = [] then (Inl ValueError, s)
          else
            and_then
              (check_output w
                 [''git'', ''blame'', ''-L'', str_int line_number @ '','' @ str_int line_number,
                  ''--porcelain'', relpath w file_path repo] (Some repo))
              (\<lambda>out s'. case out of
                  None \<Rightarrow> (Inr None, s')
                | Some blame_output \<Rightarrow>
                    (case parse_blame blame_output of
                       Inl e \<Rightarrow> (Inl e, s')
                     | Inr b \<Rightarrow> (Inr (Some b), s'))) s)"

definition lookup_git_blame ::
  "world \<Rightarrow> string \<Rightarrow> int \<Rightarrow> string option \<Rightarrow> (blame_record option) action" where
  "lookup_git_blame w file_path line_number repo_root =
     cached w git_blame_cache (\<lambda>c s. s\<lparr>git_blame_cache := c\<rparr>)
       (file_path @ '':'' @ str_int line_number)
       (get_git_blame w file_path line_number repo_root)"

text \<open>\<open>get_project_info\<close> (lines 251 to 312).\<close>

definition get_project_info :: "world \<Rightarrow> string \<Rightarrow> (project_info option) action" where
  "get_project_info w trace s0 =
     (let s = s0\<lparr>enriched := enriched s0 @ [trace]\<rparr> in
      case re_search_location trace of
        None \<Rightarrow> (Inr None, s)
      | Some (group1, group2) \<Rightarrow>
          (let file_path = strip group1;
               line_number = int_of_digits group2;
               dir_path = abspath w (dirname file_path)
           in and_then (find_vhost_for_path w file_path) (\<lambda>found_vhost.
              and_then (lookup_git_root w dir_path) (\<lambda>repo_root.
              and_then (lookup_git_remote w dir_path) (\<lambda>remote.
              and_then (lookup_git_blame w file_path line_number repo_root) (\<lambda>bl s'.
                (Inr (Some \<lparr>info_file = file_path, info_line = line_number,
                             info_vhost = (if found_vhost \<noteq> [] then Some (strip found_vhost) else None),
                             info_git_remote = remote, info_error_line = strip trace,
                             info_blame = bl\<rparr>), s'))))) s))"

section \<open>Sink and orchestrator\<close>

text \<open>
  \<open>send_to_n8n\<close> (lines 131 to 152): nothing is done without a URL; an exception raised
  by \<open>get_project_info\<close> is caught and logged, and then nothing is posted; otherwise one
  POST is issued (whether it succeeds does not change the watcher).
\<close>

definition send_to_n8n :: "world \<Rightarrow> string \<Rightarrow> watcher \<Rightarrow> watcher" where
  "send_to_n8n w error_trace s =
     (case n8n_url (config s) of
        None \<Rightarrow> s
      | Some url \<Rightarrow>
          if url = [] then s
          else (case get_project_info w error_trace s of
                  (Inl e, s') \<Rightarrow> s'
                | (Inr error_detail, s') \<Rightarrow>
                    s'\<lparr>posts := posts s' @ [(url, error_trace, error_detail)]\<rparr>))"

text \<open>
  \<open>run\<close> (lines 198 to 211) handles the traces that \<open>tail_log\<close> yields. For the i-th
  trace, \<open>obs i\<close> is what \<open>run\<close> observes then: the value of \<open>self.running\<close>, and, when
  \<open>config_needs_reload()\<close> holds, the configuration that \<open>load_config\<close> leaves behind
  (on failure an empty dict: a configuration with no \<open>enabled\<close> key). Reading and
  validating the configuration file is outside the model.
\<close>

type_synonym observation = "bool \<times> config option"

fun run_loop :: "world \<Rightarrow> (nat \<Rightarrow> observation) \<Rightarrow> nat \<Rightarrow> string list \<Rightarrow> watcher \<Rightarrow> watcher" where
  "run_loop w obs i [] s = s"
| "run_loop w obs i (error_trace # traces) s =
     (case obs i of (running, reloaded) \<Rightarrow>
        if \<not> running then s
        else (let s1 = (case reloaded of None \<Rightarrow> s | Some cfg \<Rightarrow> s\<lparr>config := cfg\<rparr>) in
              if \<not> (case enabled (config s1) of None \<Rightarrow> False | Some b \<Rightarrow> b)
              then run_loop w obs (Suc i) traces s1
              else run_loop w obs (Suc i) traces (send_to_n8n w error_trace s1)))"

definition run ::
  "world \<Rightarrow> (string \<Rightarrow> bool) \<Rightarrow> poll list \<Rightarrow> (nat \<Rightarrow> observation) \<Rightarrow> watcher \<Rightarrow> watcher" where
  "run w isfile polls obs s = run_loop w obs 0 (tail_log isfile (config s) polls) s"

section \<open>A small world for examples\<close>

definition demo_process :: "nat \<Rightarrow> string list \<Rightarrow> string option \<Rightarrow> proc" where
  "demo_process n argv cwd =
     (if argv = [''git'', ''rev-parse'', ''--show-toplevel''] then Exited 0 (''/var/www/app'' @ [newline])
      else if argv = [''git'', ''config'', ''--get'', ''remote.origin.url''] then Exited 1 []
      else if take 2 argv = [''git'', ''blame''] then Exited 0 demo_blame_output
      else Exited 2 [])"

definition demo_relpath :: "string \<Rightarrow> string \<Rightarrow> string" where
  "demo_relpath path start = drop (Suc (length start)) path"

definition demo_world :: world where
  "demo_world = \<lparr>timer = (\<lambda>n. 100), run_process = demo_process,
                  abspath = (\<lambda>p. p), relpath = demo_relpath\<rparr>"


section \<open>Properties of enrichment, sink and orchestrator\<close>

text \<open>
  What the parser computes, said directly: every field comes from the last line of its
  kind.
\<close>

definition blame_of_lines :: "string list \<Rightarrow> blame_record" where
  "blame_of_lines ls =
     \<lparr>author = map_option (drop 7) (last_line_with (\<lambda>l. startswith l ''author '') ls),
      email = map_option (\<lambda>l. strip_chars ''<>'' (drop 12 l))
                (last_line_with (\<lambda>l. startswith l ''author-mail '') ls),
      commit = map_option (take 8) (last_line_with re_match_hex40 ls),
      summary = map_option (drop 8) (last_line_with (\<lambda>l. startswith l ''summary '') ls)\<rparr>"

text \<open>Worlds for the examples: every process exits with a given code and output.\<close>

definition echo_world :: "int \<Rightarrow> string \<Rightarrow> world" where
  "echo_world returncode out =
     \<lparr>timer = (\<lambda>n. 0), run_process = (\<lambda>n argv cwd. Exited returncode out),
      abspath = (\<lambda>p. p), relpath = demo_relpath\<rparr>"

lemma and_then_Inr: "m s = (Inr a, s') \<Longrightarrow> and_then m f s = f a s'"
  by (simp add: and_then_def)

lemma and_then_Inl: "m s = (Inl e, s') \<Longrightarrow> and_then m f s = (Inl e, s')"
  by (simp add: and_then_def)

lemma parse_blame_eq: "parse_blame out = Inr (blame_of_lines (splitlines out))"
proof -
  from blame_loop_fields [of "\<lparr>author = None, email = None, commit = None, summary = None\<rparr>"
      "splitlines out"]
  obtain b where b: "parse_blame out = Inr b"
    and f: "author b = author (blame_of_lines (splitlines out))"
      "email b = email (blame_of_lines (splitlines out))"
      "summary b = summary (blame_of_lines (splitlines out))"
      "commit b = commit (blame_of_lines (splitlines out))"
    by (auto simp: parse_blame_def blame_of_lines_def split: option.splits)
  from f have "b = blame_of_lines (splitlines out)" by simp
  with b show ?thesis by simp
qed

lemma check_output_cases:
  "run_process w (length (processes s)) argv cwd = Exited rc out \<Longrightarrow>
   check_output w argv cwd s =
     (Inr (if rc = 0 then Some out else None), s\<lparr>processes := processes s @ [(argv, cwd)]\<rparr>)"
  "run_process w (length (processes s)) argv cwd = NotStarted \<Longrightarrow>
   check_output w argv cwd s = (Inl OSError, s\<lparr>processes := processes s @ [(argv, cwd)]\<rparr>)"
  by (simp_all add: check_output_def subprocess_def)

text \<open>The arguments \<open>get_git_blame\<close> passes to git.\<close>

definition blame_argv :: "world \<Rightarrow> string \<Rightarrow> int \<Rightarrow> string \<Rightarrow> string list" where
  "blame_argv w file_path line_number repo =
     [''git'', ''blame'', ''-L'', str_int line_number @ '','' @ str_int line_number,
      ''--porcelain'', relpath w file_path repo]"

lemma run_loop_disabled:
  assumes "\<forall>i cfg. snd (obs i) = Some cfg \<longrightarrow> enabled cfg \<noteq> Some True"
  shows "enabled (config s) \<noteq> Some True \<Longrightarrow>
         \<exists>cfg. run_loop w obs i traces s = s\<lparr>config := cfg\<rparr> \<and> enabled cfg \<noteq> Some True"
proof (induction traces arbitrary: i s)
  case Nil
  then have "run_loop w obs i [] s = s\<lparr>config := config s\<rparr> \<and> enabled (config s) \<noteq> Some True"
    by simp
  then show ?case by blast
next
  case (Cons t traces)
  obtain running reloaded where o: "obs i = (running, reloaded)" by (cases "obs i")
  show ?case
  proof (cases running)
    case False
    with o Cons.prems have "run_loop w obs i (t # traces) s = s\<lparr>config := config s\<rparr> \<and>
        enabled (config s) \<noteq> Some True"
      by simp
    then show ?thesis by blast
  next
    case True
    define s1 where "s1 = (case reloaded of None \<Rightarrow> s | Some cfg \<Rightarrow> s\<lparr>config := cfg\<rparr>)"
    have d: "enabled (config s1) \<noteq> Some True"
    proof (cases reloaded)
      case None
      with Cons.prems show ?thesis by (simp add: s1_def)
    next
      case (Some cfg)
      with o assms have "enabled cfg \<noteq> Some True" by (metis snd_conv)
      with Some show ?thesis by (simp add: s1_def)
    qed
    then have n: "\<not> (case enabled (config s1) of None \<Rightarrow> False | Some b \<Rightarrow> b)"
      by (auto split: option.splits)
    from o True n have r: "run_loop w obs i (t # traces) s = run_loop w obs (Suc i) traces s1"
      by (simp add: s1_def [symmetric] Let_def)
    from Cons.IH [OF d, of "Suc i"] obtain cfg where
      c: "run_loop w obs (Suc i) traces s1 = s1\<lparr>config := cfg\<rparr>" "enabled cfg \<noteq> Some True"
      by blast
    have "s1\<lparr>config := cfg\<rparr> = s\<lparr>config := cfg\<rparr>"
      by (simp add: s1_def split: option.splits)
    with r c show ?thesis by auto
  qed
qed

lemma get_project_info_no_location:
  "\<not> has_location trace \<Longrightarrow>
   get_project_info w trace s = (Inr None, s\<lparr>enriched := enriched s @ [trace]\<rparr>)"
  by (simp add: get_project_info_def re_search_location_None [symmetric])




























lemma ttl_getitem_maxsize: "ttl_getitem c key now = (r, c') \<Longrightarrow> maxsize c' = maxsize c"
  by (auto simp: ttl_getitem_def split: option.splits)

lemma ttl_setitem_maxsize: "ttl_setitem c key v now = (r, c') \<Longrightarrow> maxsize c' = maxsize c"
  by (auto simp: ttl_setitem_def Let_def split: if_splits)













subsection \<open>Configurations and worlds for the examples\<close>

definition no_url_config :: config where
  "no_url_config = \<lparr>log_file = Some ''/var/log/apache2/error.log'', enabled = Some True,
     n8n_url = Some [], vhost_dir = None\<rparr>"

definition disabled_config :: config where
  "disabled_config = \<lparr>log_file = Some ''/var/log/apache2/error.log'', enabled = Some False,
     n8n_url = Some ''http://localhost:5678/webhook'', vhost_dir = None\<rparr>"

definition flagless_config :: config where
  "flagless_config = \<lparr>log_file = Some ''/var/log/apache2/error.log'', enabled = None,
     n8n_url = Some ''http://localhost:5678/webhook'', vhost_dir = None\<rparr>"

definition keeps_running :: "nat \<Rightarrow> observation" where
  "keeps_running i = (True, None)"

definition reloads_disabled :: "nat \<Rightarrow> observation" where
  "reloads_disabled i = (True, Some disabled_config)"

definition two_commit_output :: string where
  "two_commit_output = replicate 40 (CHR ''a'') @ newline # replicate 40 (CHR ''b'')"



definition failing_world :: world where
  "failing_world = echo_world 128 []"


lemma enabled_watcher_posts:
  "posts (run_loop demo_world keeps_running 0 [''boom''] (new_watcher demo_config))
     = [(''http://localhost:5678/webhook'', ''boom'', None)]"
  by code_simp


section \<open>Claims about the tailer\<close>

subsection \<open>Lines read while no buffer is open\<close>

text \<open>
  C1 (the claim as stated fails). A line that does not match the error-start pattern and is
  read while no trace buffer is open is emitted: here a lone line \<open>hello\<close>, followed by
  an idle period of three seconds, comes out as a trace.
\<close>

theorem unmarked_line_is_emitted:
  "\<not> error_start_pattern_search (strip (''hello'' @ [newline])) \<and>
   tail_log every_file demo_config [(''hello'' @ [newline], 0), ([], 3)] = [''hello'']"
  by code_simp

text \<open>
  C1 (amended). A line read while no trace buffer is open that does not match the
  error-start pattern is not dropped: stripped, it becomes the only line of a new buffer.
  This holds before anything has been read and right after a flush by the idle timeout.
  The next trace emitted, if there is one, has that line as its first line; and if the idle
  timeout then passes with nothing read, the line is emitted as a trace of its own.
\<close>

theorem unmarked_line_opens_buffer:
  assumes "l \<noteq> []" and "\<not> error_start_pattern_search (strip l)" and "idle before"
  shows "(log_file cfg = Some path \<and> path \<noteq> [] \<and> isfile path \<longrightarrow>
           tail_log isfile cfg (before @ (l, t) # polls) = inner [strip l] t polls) \<and>
         (current_trace \<noteq> [] \<and> now - start_time \<ge> 2 \<longrightarrow>
           inner current_trace start_time (([], now) # before @ (l, t) # polls)
             = join_nl current_trace # inner [strip l] t polls) \<and>
         (inner [strip l] t polls = y # ys \<longrightarrow> (\<exists>more. y = join_nl (strip l # more))) \<and>
         (quiet t ws \<and> now' - t \<ge> 2 \<longrightarrow>
           inner [strip l] t (ws @ ([], now') # rest) = strip l # outer [] rest)"
proof -
  have o: "outer [] (before @ (l, t) # polls) = inner [strip l] t polls" for polls
    using outer_idle [OF assms(3)] outer_first_line [OF assms(1)] by simp
  have a: "log_file cfg = Some path \<and> path \<noteq> [] \<and> isfile path \<longrightarrow>
           tail_log isfile cfg (before @ (l, t) # polls) = inner [strip l] t polls"
    using o by (simp add: tail_log_def)
  have b: "current_trace \<noteq> [] \<and> now - start_time \<ge> 2 \<longrightarrow>
           inner current_trace start_time (([], now) # before @ (l, t) # polls)
             = join_nl current_trace # inner [strip l] t polls"
    using o by simp
  have c: "inner [strip l] t polls = y # ys \<longrightarrow> (\<exists>more. y = join_nl (strip l # more))"
  proof
    assume "inner [strip l] t polls = y # ys"
    from inner_first_yield [OF this] show "\<exists>more. y = join_nl (strip l # more)" by simp
  qed
  have d: "quiet t ws \<and> now' - t \<ge> 2 \<longrightarrow>
           inner [strip l] t (ws @ ([], now') # rest) = strip l # outer [] rest"
    using inner_quiet [of t ws] by simp
  from a b c d show ?thesis by blast
qed

theorem unmarked_line_opens_buffer_witness:
  "tail_log every_file demo_config ([([], 0)] @ (''hello'' @ [newline], 1) # [([], 4)])
     = inner [''hello''] 1 [([], 4)] \<and>
   inner [''hello''] 1 [([], 4)] = [''hello''] \<and>
   inner [''PHP Notice: x''] 0 (([], 2) # [([], 3)] @ (''hello'' @ [newline], 4) # [([], 7)])
     = [''PHP Notice: x'', ''hello'']"
proof -
  have l: "''hello'' @ [newline] \<noteq> []" by simp
  have u: "\<not> error_start_pattern_search (strip (''hello'' @ [newline]))" by code_simp
  have s: "strip (''hello'' @ [newline]) = ''hello''" by code_simp
  have i0: "idle [([], 0)]" and i3: "idle [([], 3)]" by (simp_all add: idle_def)
  have c: "log_file demo_config = Some ''/var/log/apache2/error.log''"
    "every_file ''/var/log/apache2/error.log''"
    by (simp_all add: demo_config_def every_file_def)
  have a: "tail_log every_file demo_config ([([], 0)] @ (''hello'' @ [newline], 1) # [([], 4)])
     = inner [''hello''] 1 [([], 4)]"
    using unmarked_line_opens_buffer [OF l u i0, of demo_config
        "''/var/log/apache2/error.log''" every_file 1 "[([], 4)]"] c s
    by simp
  have b: "inner [''hello''] 1 [([], 4)] = [''hello'']"
    using unmarked_line_opens_buffer [OF l u i0, of _ _ _ 1 "[]" _ _ _ _ _ "[]" 4 "[]"] s
    by (simp add: quiet_def)
  have d: "inner [''PHP Notice: x''] 0 (([], 2) # [([], 3)] @ (''hello'' @ [newline], 4) # [([], 7)])
     = [''PHP Notice: x'', ''hello'']"
    using unmarked_line_opens_buffer [OF l u i3, of _ _ _ 4 "[([], 7)]" "[''PHP Notice: x'']" 2 0] b s
    by simp
  from a b d show ?thesis by blast
qed

subsection \<open>Marker lines read while a buffer is open\<close>

text \<open>
  C2 (the code departs from the claim). Two lines that both match the error-start pattern,
  the second read one second after the first, followed by an idle period: the outer loop
  reads the first line and opens the buffer, the inner loop reads the second and appends
  it without consulting the pattern. One trace is emitted, and its second line matches the
  error-start pattern.
\<close>

theorem marker_line_appended_by_inner_loop:
  "error_start_pattern_search (strip (''PHP Warning: a'' @ [newline])) \<and>
   error_start_pattern_search (strip (''PHP Warning: b'' @ [newline])) \<and>
   tail_log every_file demo_config
     [(''PHP Warning: a'' @ [newline], 0), (''PHP Warning: b'' @ [newline], 1), ([], 3)]
     = [''PHP Warning: a'' @ newline # ''PHP Warning: b'']"
  by code_simp

subsection \<open>One marker line and its continuation lines\<close>

text \<open>
  C3. The log receives one line matching the error-start pattern and then N further lines
  that do not match it, each read before the idle timer restarted at its predecessor has
  reached 2 seconds; then the timer runs out, and nothing else is appended. Whatever idle
  polls come before and after, \<open>tail_log\<close> yields exactly one trace, made of the N+1 lines
  (stripped) in the order in which they were read.
\<close>

theorem single_marker_single_trace:
  assumes "log_file cfg = Some path" and "path \<noteq> []" and "isfile path"
    and "idle before"
    and "marker \<noteq> []" and "error_start_pattern_search (strip marker)"
    and "timely t0 arrivals"
    and "list_all (\<lambda>l. \<not> error_start_pattern_search (strip l)) (lines_of arrivals)"
    and "quiet (last_read t0 arrivals) ws" and "now - last_read t0 arrivals \<ge> 2"
    and "idle after"
  shows "tail_log isfile cfg (before @ (marker, t0) # feed arrivals @ ws @ ([], now) # after)
           = [join_nl (map strip (marker # lines_of arrivals))]"
proof -
  have "outer [] (before @ (marker, t0) # feed arrivals @ ws @ ([], now) # after)
          = outer [] ((marker, t0) # feed arrivals @ ws @ ([], now) # after)"
    by (rule outer_idle [OF assms(4)])
  also have "\<dots> = inner [strip marker] t0 (feed arrivals @ ws @ ([], now) # after)"
    by (rule outer_first_line [OF assms(5)])
  also have "\<dots> = inner ([strip marker] @ map strip (lines_of arrivals)) (last_read t0 arrivals)
                     (ws @ ([], now) # after)"
    by (rule inner_feed [OF assms(7)])
  also have "\<dots> = inner ([strip marker] @ map strip (lines_of arrivals)) (last_read t0 arrivals)
                     (([], now) # after)"
    by (rule inner_quiet [OF assms(9)])
  also have "\<dots> = join_nl ([strip marker] @ map strip (lines_of arrivals)) # outer [] after"
    using assms(10) by (intro inner_timeout) simp_all
  also have "\<dots> = [join_nl (map strip (marker # lines_of arrivals))]"
    using outer_nil_idle [OF assms(11)] by simp
  finally show ?thesis using assms(1-3) by (simp add: tail_log_def)
qed

theorem single_marker_single_trace_witness:
  "tail_log every_file demo_config
     [([], 0), (''PHP Fatal error: boom'' @ [newline], 1), ([], 2),
      (''#0 main()'' @ [newline], 2), (''  thrown in /a.php on line 3'' @ [newline], 3),
      ([], 4), ([], 5), ([], 6)]
   = [''PHP Fatal error: boom'' @ newline # ''#0 main()'' @ newline #
        ''thrown in /a.php on line 3'']"
proof -
  define arrivals :: "arrival list" where
    "arrivals = [([([], 2)], ''#0 main()'' @ [newline], 2),
                 ([], ''  thrown in /a.php on line 3'' @ [newline], 3)]"
  have c: "log_file demo_config = Some ''/var/log/apache2/error.log''"
    "''/var/log/apache2/error.log'' \<noteq> []" "every_file ''/var/log/apache2/error.log''"
    by (simp_all add: demo_config_def every_file_def)
  have i0: "idle [([], 0)]" and i6: "idle [([], 6)]" by (simp_all add: idle_def)
  have m: "''PHP Fatal error: boom'' @ [newline] \<noteq> []" by simp
  have e: "error_start_pattern_search (strip (''PHP Fatal error: boom'' @ [newline]))"
    by code_simp
  have t: "timely 1 arrivals" by (simp add: arrivals_def quiet_def)
  have u: "list_all (\<lambda>l. \<not> error_start_pattern_search (strip l)) (lines_of arrivals)"
    unfolding arrivals_def by code_simp
  have lr: "last_read 1 arrivals = 3" by (simp add: arrivals_def)
  have q: "quiet (last_read 1 arrivals) [([], 4)]" by (simp add: lr quiet_def)
  have n: "5 - last_read 1 arrivals \<ge> 2" by (simp add: lr)
  have j: "join_nl (map strip ((''PHP Fatal error: boom'' @ [newline]) # lines_of arrivals))
      = ''PHP Fatal error: boom'' @ newline # ''#0 main()'' @ newline #
        ''thrown in /a.php on line 3''"
    unfolding arrivals_def by code_simp
  from single_marker_single_trace [where isfile = every_file, OF c i0 m e t u q n i6] j
  show ?thesis by (simp add: arrivals_def)
qed

subsection \<open>The idle timeout\<close>

text \<open>
  C4. A trace buffer is open while the inner loop runs with a non-empty \<open>current_trace\<close>.
  If from then on \<open>readline\<close> returns nothing and a poll finds the clock 2 seconds or more
  past \<open>start_time\<close> (the time of the last append), the buffered lines are yielded as a
  trace at that poll, whatever is read afterwards: no further marker line is needed. Seen
  from \<open>tail_log\<close>: once a marker line and any lines following it in time have been
  buffered, the first poll that finds the idle timer run out yields them as a trace,
  whatever the log receives later.
\<close>

theorem idle_timeout_flushes_buffer:
  "(current_trace \<noteq> [] \<and> quiet start_time ws \<and> now - start_time \<ge> 2 \<longrightarrow>
      inner current_trace start_time (ws @ ([], now) # rest)
        = join_nl current_trace # outer [] rest) \<and>
   (log_file cfg = Some path \<and> path \<noteq> [] \<and> isfile path \<and> idle before \<and>
    marker \<noteq> [] \<and> error_start_pattern_search (strip marker) \<and> timely t0 arrivals \<and>
    quiet (last_read t0 arrivals) ws \<and> now - last_read t0 arrivals \<ge> 2 \<longrightarrow>
      tail_log isfile cfg (before @ (marker, t0) # feed arrivals @ ws @ ([], now) # rest)
        = join_nl (map strip (marker # lines_of arrivals)) # outer [] rest)"
proof (intro conjI impI)
  assume "current_trace \<noteq> [] \<and> quiet start_time ws \<and> now - start_time \<ge> 2"
  then have a: "current_trace \<noteq> []" "quiet start_time ws" "now - start_time \<ge> 2"
    by simp_all
  have "inner current_trace start_time (ws @ ([], now) # rest)
          = inner current_trace start_time (([], now) # rest)"
    by (rule inner_quiet [OF a(2)])
  also have "\<dots> = join_nl current_trace # outer [] rest"
    by (rule inner_timeout [OF a(1) a(3)])
  finally show "inner current_trace start_time (ws @ ([], now) # rest)
        = join_nl current_trace # outer [] rest" .
next
  assume "log_file cfg = Some path \<and> path \<noteq> [] \<and> isfile path \<and> idle before \<and>
    marker \<noteq> [] \<and> error_start_pattern_search (strip marker) \<and> timely t0 arrivals \<and>
    quiet (last_read t0 arrivals) ws \<and> now - last_read t0 arrivals \<ge> 2"
  then have c: "log_file cfg = Some path" "path \<noteq> []" "isfile path"
    and b: "idle before" "marker \<noteq> []" "timely t0 arrivals"
      "quiet (last_read t0 arrivals) ws" "now - last_read t0 arrivals \<ge> 2"
    by simp_all
  have "outer [] (before @ (marker, t0) # feed arrivals @ ws @ ([], now) # rest)
          = outer [] ((marker, t0) # feed arrivals @ ws @ ([], now) # rest)"
    by (rule outer_idle [OF b(1)])
  also have "\<dots> = inner [strip marker] t0 (feed arrivals @ ws @ ([], now) # rest)"
    by (rule outer_first_line [OF b(2)])
  also have "\<dots> = inner ([strip marker] @ map strip (lines_of arrivals)) (last_read t0 arrivals)
                     (ws @ ([], now) # rest)"
    by (rule inner_feed [OF b(3)])
  also have "\<dots> = inner ([strip marker] @ map strip (lines_of arrivals)) (last_read t0 arrivals)
                     (([], now) # rest)"
    by (rule inner_quiet [OF b(4)])
  also have "\<dots> = join_nl ([strip marker] @ map strip (lines_of arrivals)) # outer [] rest"
    using b(5) by (intro inner_timeout) simp_all
  finally show "tail_log isfile cfg (before @ (marker, t0) # feed arrivals @ ws @ ([], now) # rest)
        = join_nl (map strip (marker # lines_of arrivals)) # outer [] rest"
    using c by (simp add: tail_log_def)
qed

theorem idle_timeout_flushes_buffer_witness:
  "inner [''PHP Notice: x'', ''#0 y''] 10 ([([], 10.2), ([], 11.9)] @ ([], 12) # [])
     = [''PHP Notice: x'' @ newline # ''#0 y''] \<and>
   tail_log every_file demo_config
     ([] @ (''PHP Notice: x'' @ [newline], 10) # feed [] @ [([], 11)] @ ([], 12) #
        [(''later'' @ [newline], 20)])
     = [''PHP Notice: x''] @ outer [] [(''later'' @ [newline], 20)]"
proof -
  have q: "quiet 10 [([], 10.2), ([], 11.9)]" "quiet (last_read 10 []) [([], 11)]"
    by (simp_all add: quiet_def)
  have n: "(12::real) - 10 \<ge> 2" "(12::real) - last_read 10 [] \<ge> 2" by simp_all
  have c: "log_file demo_config = Some ''/var/log/apache2/error.log''"
    "every_file ''/var/log/apache2/error.log''"
    by (simp_all add: demo_config_def every_file_def)
  have e: "error_start_pattern_search (strip (''PHP Notice: x'' @ [newline]))" by code_simp
  have s: "strip (''PHP Notice: x'' @ [newline]) = ''PHP Notice: x''" by code_simp
  have i: "idle []" by (simp add: idle_def)
  have 1: "inner [''PHP Notice: x'', ''#0 y''] 10 ([([], 10.2), ([], 11.9)] @ ([], 12) # [])
     = [''PHP Notice: x'' @ newline # ''#0 y'']"
    using idle_timeout_flushes_buffer [of "[''PHP Notice: x'', ''#0 y'']" 10
        "[([], 10.2), ([], 11.9)]" 12 "[]"] q(1) n(1)
    by simp
  have 2: "tail_log every_file demo_config
     ([] @ (''PHP Notice: x'' @ [newline], 10) # feed [] @ [([], 11)] @ ([], 12) #
        [(''later'' @ [newline], 20)])
     = [''PHP Notice: x''] @ outer [] [(''later'' @ [newline], 20)]"
    using idle_timeout_flushes_buffer [where cfg = demo_config
        and path = "''/var/log/apache2/error.log''" and isfile = every_file and before = "[]"
        and marker = "''PHP Notice: x'' @ [newline]" and ?t0.0 = 10 and arrivals = "[]"
        and ws = "[([], 11)]" and now = 12 and rest = "[(''later'' @ [newline], 20)]"]
      c e i q(2) n(2) s
    by (simp add: lines_of_def)
  from 1 2 show ?thesis by simp
qed

subsection \<open>What an emitted trace is made of\<close>


section \<open>Claims about enrichment, sink and orchestrator\<close>

subsection \<open>The location extracted from a trace\<close>



subsection \<open>A trace without a location\<close>

text \<open>
  C6 (the claim as stated fails). The trace \<open>boom\<close> has no location; with an empty
  \<open>n8n_url\<close> in the configuration, \<open>send_to_n8n\<close> returns at its guard (lines 139 to
  141) and posts nothing.
\<close>

theorem trace_without_location_not_posted_without_url:
  "\<not> has_location ''boom'' \<and>
   posts (send_to_n8n demo_world ''boom'' (new_watcher no_url_config)) = []"
proof -
  have "re_search_location ''boom'' = None" by code_simp
  then have "\<not> has_location ''boom''" unfolding re_search_location_None .
  moreover have "posts (send_to_n8n demo_world ''boom'' (new_watcher no_url_config)) = []"
    by (simp add: send_to_n8n_def new_watcher_def no_url_config_def)
  ultimately show ?thesis by simp
qed

text \<open>
  C6 (amended). For a trace without "in <path> on line <integer>", \<open>get_project_info\<close>
  returns null without touching caches or processes; \<open>send_to_n8n\<close> then issues exactly
  one POST, with the trace and a null detail, when the configuration has a non-empty
  \<open>n8n_url\<close>, and does nothing when \<open>n8n_url\<close> is missing or empty.
\<close>

theorem trace_without_location_is_forwarded:
  assumes "\<not> has_location trace"
  shows "get_project_info w trace s = (Inr None, s\<lparr>enriched := enriched s @ [trace]\<rparr>) \<and>
         (n8n_url (config s) = Some url \<and> url \<noteq> [] \<longrightarrow>
            send_to_n8n w trace s
              = s\<lparr>enriched := enriched s @ [trace], posts := posts s @ [(url, trace, None)]\<rparr>) \<and>
         (n8n_url (config s) = None \<or> n8n_url (config s) = Some [] \<longrightarrow>
            send_to_n8n w trace s = s)"
  using get_project_info_no_location [OF assms, of w s]
  by (auto simp: send_to_n8n_def)

theorem trace_without_location_is_forwarded_witness:
  "posts (send_to_n8n demo_world ''boom'' (new_watcher demo_config))
     = [(''http://localhost:5678/webhook'', ''boom'', None)] \<and>
   fst (get_project_info demo_world ''boom'' (new_watcher demo_config)) = Inr None \<and>
   send_to_n8n demo_world ''boom'' (new_watcher no_url_config) = new_watcher no_url_config"
proof -
  have "re_search_location ''boom'' = None" by code_simp
  then have n: "\<not> has_location ''boom''" unfolding re_search_location_None .
  have u: "n8n_url (config (new_watcher demo_config)) = Some ''http://localhost:5678/webhook''"
    "n8n_url (config (new_watcher no_url_config)) = Some []"
    by (simp_all add: new_watcher_def demo_config_def no_url_config_def)
  from trace_without_location_is_forwarded [OF n, of demo_world "new_watcher demo_config"
      "''http://localhost:5678/webhook''"] u(1)
  have a: "posts (send_to_n8n demo_world ''boom'' (new_watcher demo_config))
     = [(''http://localhost:5678/webhook'', ''boom'', None)]"
    "fst (get_project_info demo_world ''boom'' (new_watcher demo_config)) = Inr None"
    by (simp_all add: new_watcher_def)
  from trace_without_location_is_forwarded [OF n, of demo_world "new_watcher no_url_config"] u(2)
  have "send_to_n8n demo_world ''boom'' (new_watcher no_url_config) = new_watcher no_url_config"
    by simp
  with a show ?thesis by simp
qed

subsection \<open>The four caches\<close>



subsection \<open>The blame record\<close>

text \<open>
  C8 (the claim as stated fails). An output with two lines that start with 40 hexadecimal
  characters: the commit of the record comes from the second one, not from the first.
\<close>

theorem blame_commit_from_last_line:
  "re_match_hex40 (hd (splitlines two_commit_output)) \<and>
   take 8 (hd (splitlines two_commit_output)) = ''aaaaaaaa'' \<and>
   fst (get_git_blame (echo_world 0 two_commit_output) ''/r/f.php'' 1 (Some ''/r'')
          (new_watcher demo_config))
     = Inr (Some \<lparr>author = None, email = None, commit = Some ''bbbbbbbb'', summary = None\<rparr>)"
  by code_simp

text \<open>
  C8 (amended). \<open>get_git_blame\<close> returns null when the repository root is null or empty,
  and when git blame exits with a code other than 0. When it exits with code 0, the record
  has as commit the first 8 characters of the last output line that starts with 40
  characters from 0-9 and a-f, as author and summary what follows the prefix in the last
  line starting with \<open>author \<close> and in the last line starting with \<open>summary \<close>, and as
  email what follows the prefix in the last line starting with \<open>author-mail \<close>, with
  the angle brackets at both ends removed; a field with no such line is null.
\<close>

theorem get_git_blame_last_lines:
  "(repo_path = None \<or> repo_path = Some [] \<longrightarrow>
      get_git_blame w file_path line_number repo_path s = (Inr None, s)) \<and>
   (repo \<noteq> [] \<and> file_path \<noteq> [] \<and>
    run_process w (length (processes s)) (blame_argv w file_path line_number repo) (Some repo)
      = Exited returncode out \<longrightarrow>
      fst (get_git_blame w file_path line_number (Some repo) s)
        = (if returncode \<noteq> 0 then Inr None
           else Inr (Some (blame_of_lines (splitlines out)))))"
proof -
  have a: "repo_path = None \<or> repo_path = Some [] \<longrightarrow>
      get_git_blame w file_path line_number repo_path s = (Inr None, s)"
    by (auto simp: get_git_blame_def)
  have b: "fst (get_git_blame w file_path line_number (Some repo) s)
        = (if returncode \<noteq> 0 then Inr None
           else Inr (Some (blame_of_lines (splitlines out))))"
    if h: "repo \<noteq> []" "file_path \<noteq> []"
      "run_process w (length (processes s)) (blame_argv w file_path line_number repo) (Some repo)
        = Exited returncode out"
  proof -
    from check_output_cases(1) [OF h(3)] h(1,2) show ?thesis
      by (simp add: get_git_blame_def blame_argv_def and_then_def parse_blame_eq)
  qed
  from a b show ?thesis by blast
qed

theorem get_git_blame_last_lines_witness:
  "fst (get_git_blame demo_world ''/var/www/app/index.php'' 42 (Some ''/var/www/app'')
          (new_watcher demo_config))
     = Inr (Some \<lparr>author = Some ''Jane Doe'', email = Some ''a@b.com'',
                   commit = Some ''3f2a9c0d'', summary = Some ''Fix the index page''\<rparr>) \<and>
   fst (get_git_blame failing_world ''/var/www/app/index.php'' 42 (Some ''/var/www/app'')
          (new_watcher demo_config)) = Inr None \<and>
   fst (get_git_blame demo_world ''/var/www/app/index.php'' 42 None (new_watcher demo_config))
     = Inr None"
proof -
  have p: "run_process demo_world (length (processes (new_watcher demo_config)))
             (blame_argv demo_world ''/var/www/app/index.php'' 42 ''/var/www/app'')
             (Some ''/var/www/app'') = Exited 0 demo_blame_output"
    by (simp add: demo_world_def demo_process_def blame_argv_def)
  have q: "run_process failing_world (length (processes (new_watcher demo_config)))
             (blame_argv failing_world ''/var/www/app/index.php'' 42 ''/var/www/app'')
             (Some ''/var/www/app'') = Exited 128 []"
    by (simp add: failing_world_def echo_world_def)
  have b: "blame_of_lines (splitlines demo_blame_output)
      = \<lparr>author = Some ''Jane Doe'', email = Some ''a@b.com'',
         commit = Some ''3f2a9c0d'', summary = Some ''Fix the index page''\<rparr>"
    by code_simp
  have ne: "''/var/www/app'' \<noteq> []" "''/var/www/app/index.php'' \<noteq> []" by simp_all
  from get_git_blame_last_lines [of None demo_world "''/var/www/app/index.php''" 42
      "new_watcher demo_config" "''/var/www/app''" 0 demo_blame_output] p ne b
  have 1: "fst (get_git_blame demo_world ''/var/www/app/index.php'' 42 (Some ''/var/www/app'')
          (new_watcher demo_config))
     = Inr (Some \<lparr>author = Some ''Jane Doe'', email = Some ''a@b.com'',
                   commit = Some ''3f2a9c0d'', summary = Some ''Fix the index page''\<rparr>)"
    and 3: "fst (get_git_blame demo_world ''/var/www/app/index.php'' 42 None (new_watcher demo_config))
     = Inr None"
    by simp_all
  from get_git_blame_last_lines [of None failing_world "''/var/www/app/index.php''" 42
      "new_watcher demo_config" "''/var/www/app''" 128 "[]"] q ne
  have 2: "fst (get_git_blame failing_world ''/var/www/app/index.php'' 42 (Some ''/var/www/app'')
          (new_watcher demo_config)) = Inr None"
    by simp
  from 1 2 3 show ?thesis by simp
qed

subsection \<open>A disabled watcher\<close>

text \<open>
  C9. If the \<open>enabled\<close> flag is false or absent in the configuration in force and in
  every configuration loaded while \<open>run\<close> is at work, then for any list of traces, and so
  for whatever \<open>tail_log\<close> yields, \<open>run\<close> never calls \<open>get_project_info\<close>, starts no
  process and issues no POST.
\<close>

theorem disabled_watcher_discards_traces:
  assumes "enabled (config s) \<noteq> Some True"
    and "\<forall>i cfg. snd (obs i) = Some cfg \<longrightarrow> enabled cfg \<noteq> Some True"
  shows "posts (run_loop w obs i traces s) = posts s \<and>
         enriched (run_loop w obs i traces s) = enriched s \<and>
         processes (run_loop w obs i traces s) = processes s \<and>
         posts (run w isfile polls obs s) = posts s \<and>
         enriched (run w isfile polls obs s) = enriched s \<and>
         processes (run w isfile polls obs s) = processes s"
proof -
  from run_loop_disabled [OF assms(2) assms(1), of w i traces] obtain cfg where
    "run_loop w obs i traces s = s\<lparr>config := cfg\<rparr>" by blast
  moreover
  from run_loop_disabled [OF assms(2) assms(1), of w 0 "tail_log isfile (config s) polls"]
  obtain cfg' where "run w isfile polls obs s = s\<lparr>config := cfg'\<rparr>"
    unfolding run_def by blast
  ultimately show ?thesis by simp
qed

theorem disabled_watcher_discards_traces_witness:
  "posts (run_loop demo_world reloads_disabled 0 [''PHP Warning: a'', ''PHP Warning: b'']
            (new_watcher disabled_config)) = [] \<and>
   enriched (run_loop demo_world reloads_disabled 0 [''PHP Warning: a'', ''PHP Warning: b'']
            (new_watcher disabled_config)) = [] \<and>
   tail_log every_file flagless_config [(''PHP Warning: a'' @ [newline], 0), ([], 3)]
     = [''PHP Warning: a''] \<and>
   posts (run demo_world every_file [(''PHP Warning: a'' @ [newline], 0), ([], 3)] keeps_running
            (new_watcher flagless_config)) = [] \<and>
   processes (run demo_world every_file [(''PHP Warning: a'' @ [newline], 0), ([], 3)] keeps_running
            (new_watcher flagless_config)) = []"
proof -
  have a: "enabled (config (new_watcher disabled_config)) \<noteq> Some True"
    "enabled (config (new_watcher flagless_config)) \<noteq> Some True"
    by (simp_all add: new_watcher_def disabled_config_def flagless_config_def)
  have b: "\<forall>i cfg. snd (reloads_disabled i) = Some cfg \<longrightarrow> enabled cfg \<noteq> Some True"
    "\<forall>i cfg. snd (keeps_running i) = Some cfg \<longrightarrow> enabled cfg \<noteq> Some True"
    by (simp_all add: reloads_disabled_def keeps_running_def disabled_config_def)
  have t: "tail_log every_file flagless_config [(''PHP Warning: a'' @ [newline], 0), ([], 3)]
     = [''PHP Warning: a'']"
    by code_simp
  from disabled_watcher_discards_traces [OF a(1) b(1), of demo_world 0
      "[''PHP Warning: a'', ''PHP Warning: b'']"]
    disabled_watcher_discards_traces [OF a(2) b(2), of demo_world _ _ every_file
      "[(''PHP Warning: a'' @ [newline], 0), ([], 3)]"] t
  show ?thesis by (simp add: new_watcher_def)
qed

end
